theory Spec2Isabelle
  imports Main
begin

section \<open>Python values and exceptions\<close>

text \<open>
  The exceptions that \<^verbatim>\<open>ppgan/datasets/base_dataset.py\<close> raises itself or lets
  through from the Python library calls it makes.
\<close>

datatype error =
    TypeError
  | ValueError
  | FileNotFoundError
  | NotADirectoryError
  | AssertionError
  | IndexError
  | AttributeError

text \<open>
  The values an argument of \<open>scandir\<close> or \<open>scan_folder\<close> can be, as far as the
  \<open>isinstance\<close> tests of the source tell them apart. \<open>PPath s\<close> is a
  \<open>pathlib.Path\<close> whose \<open>str()\<close> is \<open>s\<close>.
\<close>

datatype pyval =
    PNone
  | PStr string
  | PPath string
  | PInt int
  | PTuple "pyval list"
  | PList "pyval list"
  | PSet "pyval list"

section \<open>The Python library functions the scanner calls\<close>

subsection \<open>\<open>str.startswith\<close> and \<open>str.endswith\<close>\<close>

definition startswith :: "string \<Rightarrow> string \<Rightarrow> bool" where
  "startswith s t = (take (length t) s = t)"

definition str_endswith :: "string \<Rightarrow> string \<Rightarrow> bool" where
  "str_endswith s t = (length t \<le> length s \<and> drop (length s - length t) s = t)"

text \<open>
  \<open>s.endswith(suffix)\<close> with a tuple tries the elements in order: an element that is
  not a \<open>str\<close> raises \<open>TypeError\<close> when it is reached, and the first match returns
  \<open>True\<close> without looking at the rest.
\<close>

fun tuple_endswith :: "string \<Rightarrow> pyval list \<Rightarrow> error + bool" where
  "tuple_endswith s [] = Inr False"
| "tuple_endswith s (PStr t # vs) = (if str_endswith s t then Inr True else tuple_endswith s vs)"
| "tuple_endswith s (v # vs) = Inl TypeError"

fun endswith :: "string \<Rightarrow> pyval \<Rightarrow> error + bool" where
  "endswith s (PStr t) = Inr (str_endswith s t)"
| "endswith s (PTuple vs) = tuple_endswith s vs"
| "endswith s v = Inl TypeError"

subsection \<open>\<open>posixpath\<close>\<close>

definition sep :: char where
  "sep = CHR ''/''"

definition isabs :: "string \<Rightarrow> bool" where
  "isabs s = startswith s [sep]"

text \<open>\<open>os.path.join(a, b)\<close>\<close>

definition os_path_join :: "string \<Rightarrow> string \<Rightarrow> string" where
  "os_path_join a b =
     (if startswith b [sep] then b
      else if a = [] \<or> str_endswith a [sep] then a @ b
      else a @ [sep] @ b)"

text \<open>\<open>s.split('/')\<close> and \<open>'/'.join(parts)\<close>\<close>

fun split_sep :: "string \<Rightarrow> string list" where
  "split_sep [] = [[]]"
| "split_sep (c # cs) =
     (if c = sep then [] # split_sep cs
      else (case split_sep cs of [] \<Rightarrow> [[c]] | h # t \<Rightarrow> (c # h) # t))"

fun sep_join :: "string list \<Rightarrow> string" where
  "sep_join [] = []"
| "sep_join [x] = x"
| "sep_join (x # y # ys) = x @ [sep] @ sep_join (y # ys)"

text \<open>
  \<open>os.path.normpath\<close>: the number of leading slashes kept (two exactly stay two),
  and the loop over the components that drops empty ones and \<open>.\<close> and resolves
  \<open>..\<close>.
\<close>

definition initial_slashes :: "string \<Rightarrow> nat" where
  "initial_slashes path =
     (if \<not> startswith path [sep] then 0
      else if startswith path [sep, sep] \<and> \<not> startswith path [sep, sep, sep] then 2
      else 1)"

definition norm_step :: "nat \<Rightarrow> string list \<Rightarrow> string \<Rightarrow> string list" where
  "norm_step slashes new_comps part =
     (if part = [] \<or> part = ''.'' then new_comps
      else if part \<noteq> ''..'' \<or> (slashes = 0 \<and> new_comps = [])
              \<or> (new_comps \<noteq> [] \<and> last new_comps = ''..'')
           then new_comps @ [part]
      else if new_comps \<noteq> [] then butlast new_comps
      else new_comps)"

definition normpath :: "string \<Rightarrow> string" where
  "normpath path =
     (if path = [] then ''.''
      else
        let slashes = initial_slashes path;
            comps = foldl (norm_step slashes) [] (split_sep path);
            p = replicate slashes sep @ sep_join comps
        in if p = [] then ''.'' else p)"

text \<open>\<open>os.path.abspath\<close>, with the current directory \<open>os.getcwd()\<close> as \<open>cwd\<close>.\<close>

definition abspath :: "string \<Rightarrow> string \<Rightarrow> string" where
  "abspath cwd path = normpath (if isabs path then path else os_path_join cwd path)"

text \<open>\<open>os.path.commonprefix\<close> of two lists: their longest common prefix.\<close>

fun commonprefix :: "'a list \<Rightarrow> 'a list \<Rightarrow> 'a list" where
  "commonprefix (x # xs) (y # ys) = (if x = y then x # commonprefix xs ys else [])"
| "commonprefix xs ys = []"

text \<open>\<open>os.path.relpath(path, start)\<close>\<close>

definition relpath :: "string \<Rightarrow> string \<Rightarrow> string \<Rightarrow> error + string" where
  "relpath cwd path start =
     (if path = [] then Inl ValueError
      else
        let start_list = filter (\<lambda>x. x \<noteq> []) (split_sep (abspath cwd start));
            path_list = filter (\<lambda>x. x \<noteq> []) (split_sep (abspath cwd path));
            i = length (commonprefix start_list path_list);
            rel_list = replicate (length start_list - i) ''..'' @ drop i path_list
        in if rel_list = [] then Inr ''.''
           else Inr (foldl os_path_join (hd rel_list) (tl rel_list)))"

section \<open>The file system\<close>

text \<open>
  What a scan reads: a directory is the list of its entries, name and node, in
  the order \<open>os.scandir\<close> enumerates them; everything that is not a directory is
  a file. Symbolic links and special files are not modelled. \<open>resolve\<close> gives the
  node a path string names, \<open>None\<close> when nothing is there.
\<close>

datatype node = File | Dir "(string \<times> node) list"

text \<open>\<open>entry.is_file()\<close>\<close>

fun is_file :: "node \<Rightarrow> bool" where
  "is_file File = True"
| "is_file (Dir es) = False"

record filesystem =
  getcwd :: string
  resolve :: "string \<Rightarrow> node option"

section \<open>scandir\<close>

text \<open>
  A generator, once consumed to its end: the values it yielded, in order, the
  paths it passed to \<open>os.scandir\<close>, in order, and the exception that ended it, if
  one did.
\<close>

record gen =
  yielded :: "string list"
  scanned :: "string list"
  raised :: "error option"

definition gen_done :: gen where
  "gen_done = \<lparr>yielded = [], scanned = [], raised = None\<rparr>"

definition gen_yield :: "string \<Rightarrow> gen" where
  "gen_yield v = \<lparr>yielded = [v], scanned = [], raised = None\<rparr>"

definition gen_raise :: "error \<Rightarrow> gen" where
  "gen_raise e = \<lparr>yielded = [], scanned = [], raised = Some e\<rparr>"

definition gen_open :: "string \<Rightarrow> gen" where
  "gen_open p = \<lparr>yielded = [], scanned = [p], raised = None\<rparr>"

text \<open>One part of a generator body after another: an exception in the first ends both.\<close>

definition gen_then :: "gen \<Rightarrow> gen \<Rightarrow> gen" where
  "gen_then a b =
     (case raised a of
        Some e \<Rightarrow> a
      | None \<Rightarrow> \<lparr>yielded = yielded a @ yielded b, scanned = scanned a @ scanned b,
                  raised = raised b\<rparr>)"

text \<open>
  \<^verbatim>\<open>if suffix is None:
      yield rel_path
  elif rel_path.endswith(suffix):
      yield rel_path\<close>
\<close>

definition yield_if_match :: "pyval \<Rightarrow> string \<Rightarrow> gen" where
  "yield_if_match suffix rel_path =
     (if suffix = PNone then gen_yield rel_path
      else (case endswith rel_path suffix of
              Inl e \<Rightarrow> gen_raise e
            | Inr b \<Rightarrow> if b then gen_yield rel_path else gen_done))"

text \<open>
  \<open>_scandir(dir_path, suffix, recursive)\<close>, with \<open>root\<close> from the enclosing
  \<open>scandir\<close>. \<open>inner_scandir\<close> is the call: \<open>os.scandir(dir_path)\<close> on the node
  that \<open>dir_path\<close> names, which raises \<open>NotADirectoryError\<close> on a file.
  \<open>for_entries\<close> is the \<open>for\<close> loop over the entries; \<open>entry.path\<close> is
  \<open>os.path.join(dir_path, entry.name)\<close>.
\<close>

fun inner_scandir :: "string \<Rightarrow> string \<Rightarrow> string \<Rightarrow> pyval \<Rightarrow> bool \<Rightarrow> node \<Rightarrow> gen"
  and for_entries ::
    "string \<Rightarrow> string \<Rightarrow> string \<Rightarrow> pyval \<Rightarrow> bool \<Rightarrow> (string \<times> node) list \<Rightarrow> gen" where
  "inner_scandir cwd root dir_path suffix recursive File =
     gen_then (gen_open dir_path) (gen_raise NotADirectoryError)"
| "inner_scandir cwd root dir_path suffix recursive (Dir es) =
     gen_then (gen_open dir_path) (for_entries cwd root dir_path suffix recursive es)"
| "for_entries cwd root dir_path suffix recursive [] = gen_done"
| "for_entries cwd root dir_path suffix recursive ((name, nd) # es) =
     gen_then
       (let path = os_path_join dir_path name in
        if \<not> startswith name ''.'' \<and> is_file nd then
          (case relpath cwd path root of
             Inl e \<Rightarrow> gen_raise e
           | Inr rel_path \<Rightarrow> yield_if_match suffix rel_path)
        else if recursive then inner_scandir cwd root path suffix recursive nd
        else gen_done)
       (for_entries cwd root dir_path suffix recursive es)"

text \<open>\<open>isinstance(v, (str, Path))\<close> with \<open>str(v)\<close>, and \<open>isinstance(v, (str, tuple))\<close>\<close>

fun str_or_path :: "pyval \<Rightarrow> string option" where
  "str_or_path (PStr s) = Some s"
| "str_or_path (PPath s) = Some s"
| "str_or_path v = None"

fun str_or_tuple :: "pyval \<Rightarrow> bool" where
  "str_or_tuple (PStr s) = True"
| "str_or_tuple (PTuple vs) = True"
| "str_or_tuple v = False"

text \<open>
  \<open>scandir(dir_path, suffix=None, recursive=False)\<close>. The two type checks run in
  the call; what the call returns is the generator, which reads the file system
  only when it is consumed: a function of the file system.
\<close>

definition scandir :: "pyval \<Rightarrow> pyval \<Rightarrow> bool \<Rightarrow> error + (filesystem \<Rightarrow> gen)" where
  "scandir dir_path suffix recursive =
     (case str_or_path dir_path of
        None \<Rightarrow> Inl TypeError
      | Some dir_path \<Rightarrow>
          if suffix \<noteq> PNone \<and> \<not> str_or_tuple suffix then Inl TypeError
          else Inr (\<lambda>fs.
            case resolve fs dir_path of
              None \<Rightarrow> gen_then (gen_open dir_path) (gen_raise FileNotFoundError)
            | Some nd \<Rightarrow> inner_scandir (getcwd fs) dir_path dir_path suffix recursive nd))"

section \<open>scan_folder\<close>

definition IMG_EXTENSIONS :: pyval where
  "IMG_EXTENSIONS = PTuple [PStr ''.jpg'', PStr ''.JPG'', PStr ''.jpeg'', PStr ''.JPEG'',
     PStr ''.png'', PStr ''.PNG'', PStr ''.ppm'', PStr ''.PPM'', PStr ''.bmp'', PStr ''.BMP'']"

text \<open>
  What a call of \<open>scan_folder\<close> comes to: the list it returns or the exception it
  raises, and the paths it has passed to \<open>os.scandir\<close>.
\<close>

record outcome =
  result :: "error + string list"
  opened :: "string list"

text \<open>\<^verbatim>\<open>BaseDataset.scan_folder(path)\<close>; \<open>list(...)\<close> consumes the generator.\<close>

definition scan_folder :: "filesystem \<Rightarrow> pyval \<Rightarrow> outcome" where
  "scan_folder fs path =
     (case str_or_path path of
        None \<Rightarrow> \<lparr>result = Inl TypeError, opened = []\<rparr>
      | Some path \<Rightarrow>
          (case scandir (PStr path) IMG_EXTENSIONS True of
             Inl e \<Rightarrow> \<lparr>result = Inl e, opened = []\<rparr>
           | Inr g \<Rightarrow>
               (let r = g fs in
                case raised r of
                  Some e \<Rightarrow> \<lparr>result = Inl e, opened = scanned r\<rparr>
                | None \<Rightarrow>
                    (let samples = map (os_path_join path) (yielded r) in
                     if samples = [] then \<lparr>result = Inl AssertionError, opened = scanned r\<rparr>
                     else \<lparr>result = Inr samples, opened = scanned r\<rparr>))))"

section \<open>BaseDataset\<close>

text \<open>
  \<^verbatim>\<open>build_load_pipeline\<close> and \<open>build_transforms\<close> come from
  \<^verbatim>\<open>ppgan.datasets.preprocess\<close>; they are parameters of the constructor below.
  What they return is an object that \<open>__getitem__\<close> tests for truth
  (\<^verbatim>\<open>and self.load_pipeline\<close>) and then calls, so a pipeline is its truth value
  and the function it computes.
\<close>

record 'a pipeline =
  truthy :: bool
  call :: "'a \<Rightarrow> 'a"

text \<open>
  \<open>self.annotations\<close>: not set before \<open>load_annotations\<close> has run, \<open>None\<close> after the
  abstract \<open>load_annotations\<close> of the base class, and a list once a subclass has
  filled it.
\<close>

datatype 'a annotations_attr = Unset | IsNone | IsList "'a list"

text \<open>
  An instance: \<open>load_pipeline\<close> and \<open>transforms\<close> are \<open>None\<close> here when the
  instance has no such attribute (\<open>hasattr\<close> is false).
\<close>

record 'a dataset =
  load_pipeline :: "'a pipeline option"
  transforms :: "'a pipeline option"
  annotations :: "'a annotations_attr"

text \<open>
  Truth of a configuration argument (\<^verbatim>\<open>if load_pipeline:\<close>): \<open>None\<close> and the
  empty list are false.
\<close>

fun config_given :: "'c list option \<Rightarrow> bool" where
  "config_given None = False"
| "config_given (Some cfg) = (cfg \<noteq> [])"

text \<open>\<^verbatim>\<open>BaseDataset.__init__(self, load_pipeline=None, transforms=None)\<close>\<close>

definition init ::
  "('c list \<Rightarrow> 'a pipeline) \<Rightarrow> ('c list \<Rightarrow> 'a pipeline) \<Rightarrow>
     'c list option \<Rightarrow> 'c list option \<Rightarrow> 'a dataset" where
  "init build_load_pipeline build_transforms load_pipeline_cfg transforms_cfg =
     \<lparr> load_pipeline =
         (if config_given load_pipeline_cfg
          then Some (build_load_pipeline (the load_pipeline_cfg)) else None),
       transforms =
         (if config_given transforms_cfg
          then Some (build_transforms (the transforms_cfg)) else None),
       annotations = Unset \<rparr>"

text \<open>
  \<open>load_annotations\<close> of the base class sets \<open>self.annotations = None\<close>; a subclass
  overrides it and stores its list.
\<close>

definition load_annotations :: "'a dataset \<Rightarrow> 'a dataset" where
  "load_annotations self = self\<lparr>annotations := IsNone\<rparr>"

definition load_annotations_subclass :: "'a list \<Rightarrow> 'a dataset \<Rightarrow> 'a dataset" where
  "load_annotations_subclass xs self = self\<lparr>annotations := IsList xs\<rparr>"

text \<open>
  Python's \<open>xs[idx]\<close> on a list with an integer index: an index from \<open>-len\<close> to
  \<open>-1\<close> counts from the end, anything outside \<open>-len \<le> idx < len\<close> raises
  \<open>IndexError\<close>.
\<close>

definition list_getitem :: "'a list \<Rightarrow> int \<Rightarrow> error + 'a" where
  "list_getitem xs idx =
     (let n = int (length xs) in
      if 0 \<le> idx \<and> idx < n then Inr (xs ! nat idx)
      else if - n \<le> idx \<and> idx < 0 then Inr (xs ! nat (n + idx))
      else Inl IndexError)"

text \<open>
  \<^verbatim>\<open>if hasattr(self, 'load_pipeline') and self.load_pipeline:
      datas = self.load_pipeline(datas)\<close>
\<close>

definition apply_if_present :: "'a pipeline option \<Rightarrow> 'a \<Rightarrow> 'a" where
  "apply_if_present attr datas =
     (case attr of
        None \<Rightarrow> datas
      | Some p \<Rightarrow> if truthy p then call p datas else datas)"

text \<open>\<^verbatim>\<open>BaseDataset.__getitem__(self, idx)\<close>\<close>

definition getitem :: "'a dataset \<Rightarrow> int \<Rightarrow> error + 'a" where
  "getitem self idx =
     (case annotations self of
        Unset \<Rightarrow> Inl AttributeError
      | IsNone \<Rightarrow> Inl TypeError
      | IsList xs \<Rightarrow>
          (case list_getitem xs idx of
             Inl e \<Rightarrow> Inl e
           | Inr datas \<Rightarrow>
               (let datas = apply_if_present (load_pipeline self) datas;
                    datas = apply_if_present (transforms self) datas
                in Inr datas)))"

text \<open>\<^verbatim>\<open>BaseDataset.__len__(self)\<close>\<close>

definition len :: "'a dataset \<Rightarrow> error + nat" where
  "len self =
     (case annotations self of
        Unset \<Rightarrow> Inl AttributeError
      | IsNone \<Rightarrow> Inl TypeError
      | IsList xs \<Rightarrow> Inr (length xs))"

section \<open>Well-formed trees and the files below a directory\<close>

text \<open>
  A name as a directory entry has it: not empty, without a separator, and neither
  \<open>.\<close> nor \<open>..\<close>, which \<open>os.scandir\<close> leaves out.
\<close>

definition good_name :: "string \<Rightarrow> bool" where
  "good_name n = (n \<noteq> [] \<and> sep \<notin> set n \<and> n \<noteq> ''.'' \<and> n \<noteq> ''..'')"

text \<open>A tree whose names are entry names, no two entries of a directory with the same name.\<close>

fun wf_node :: "node \<Rightarrow> bool"
  and wf_entries :: "(string \<times> node) list \<Rightarrow> bool" where
  "wf_node File = True"
| "wf_node (Dir es) = (distinct (map fst es) \<and> wf_entries es)"
| "wf_entries [] = True"
| "wf_entries ((name, nd) # es) = (good_name name \<and> wf_node nd \<and> wf_entries es)"

text \<open>
  The regular files at or below a node, each as the list of names that leads to it
  from the root of the scan, in enumeration order; \<open>pre\<close> is the list of names
  that leads to the node.
\<close>

fun files_node :: "string list \<Rightarrow> node \<Rightarrow> string list list"
  and files_entries :: "string list \<Rightarrow> (string \<times> node) list \<Rightarrow> string list list" where
  "files_node pre File = [pre]"
| "files_node pre (Dir es) = files_entries pre es"
| "files_entries pre [] = []"
| "files_entries pre ((name, nd) # es) = files_node (pre @ [name]) nd @ files_entries pre es"

text \<open>A hidden name starts with a dot.\<close>

definition hidden :: "string \<Rightarrow> bool" where
  "hidden name = startswith name ''.''"

text \<open>The suffix filter lets a relative path through.\<close>

definition matches :: "pyval \<Rightarrow> string \<Rightarrow> bool" where
  "matches suffix rel_path = (suffix = PNone \<or> endswith rel_path suffix = Inr True)"

text \<open>
  What the scanner is to yield: a file, given by the names that lead to it, whose own
  name is not hidden and whose relative path the suffix filter lets through.
\<close>

definition found :: "pyval \<Rightarrow> string list \<Rightarrow> bool" where
  "found suffix ns = (\<not> hidden (last ns) \<and> matches suffix (sep_join ns))"

text \<open>\<open>os.path.basename\<close>: what follows the last separator.\<close>

definition basename :: "string \<Rightarrow> string" where
  "basename p = last (split_sep p)"

text \<open>
  Three abbreviations for the proofs about \<open>relpath\<close>: the components
  \<open>normpath\<close> keeps, the string \<open>abspath\<close> normalises, and the non-empty
  components of an absolute path.
\<close>

definition norm_parts :: "string \<Rightarrow> string list" where
  "norm_parts z = foldl (norm_step (initial_slashes z)) [] (split_sep z)"

definition abs_string :: "string \<Rightarrow> string \<Rightarrow> string" where
  "abs_string cwd x = (if isabs x then x else os_path_join cwd x)"

definition abs_parts :: "string \<Rightarrow> string \<Rightarrow> string list" where
  "abs_parts cwd x = filter (\<lambda>c. c \<noteq> []) (split_sep (abspath cwd x))"

section \<open>Example trees\<close>

text \<open>
  The folder \<open>/data/imgs\<close> with \<open>a.png\<close>, \<open>b.txt\<close>, \<open>.hidden.png\<close> and the
  subfolder \<open>sub\<close> holding \<open>c.jpg\<close>.
\<close>

definition imgs :: node where
  "imgs = Dir [(''a.png'', File), (''b.txt'', File), (''.hidden.png'', File),
               (''sub'', Dir [(''c.jpg'', File)])]"

definition data_fs :: filesystem where
  "data_fs = \<lparr>getcwd = ''/home/u'', resolve = [''/data/imgs'' \<mapsto> imgs]\<rparr>"

text \<open>A checkout: a hidden directory \<open>.git\<close> with a file in it, beside an image and a subfolder.\<close>

definition repo :: node where
  "repo = Dir [(''a.png'', File), (''.git'', Dir [(''logo.png'', File)]),
               (''sub'', Dir [(''c.jpg'', File), (''notes.txt'', File)])]"

definition repo_fs :: filesystem where
  "repo_fs = \<lparr>getcwd = ''/home/u'', resolve = [''/data/repo'' \<mapsto> repo]\<rparr>"

text \<open>A folder with one image and a hidden regular file beside it.\<close>

definition shots :: node where
  "shots = Dir [(''photo.jpg'', File), (''.DS_Store'', File)]"

definition shots_fs :: filesystem where
  "shots_fs = \<lparr>getcwd = ''/home/u'', resolve = [''/data/shots'' \<mapsto> shots]\<rparr>"

text \<open>Consuming the generator a call of \<open>scandir\<close> returned, when it returned one.\<close>

definition consume :: "error + (filesystem \<Rightarrow> gen) \<Rightarrow> filesystem \<Rightarrow> gen option" where
  "consume c fs = (case c of Inl e \<Rightarrow> None | Inr g \<Rightarrow> Some (g fs))"

section \<open>Paths below the root of a scan\<close>

lemma split_sep_not_Nil [simp]: "split_sep s \<noteq> []"
  by (induction s) (auto split: list.splits)

lemma split_sep_append_sep: "split_sep (a @ sep # b) = split_sep a @ split_sep b"
  by (induction a) (auto split: list.splits)

lemma split_sep_no_sep: "sep \<notin> set s \<Longrightarrow> split_sep s = [s]"
  by (induction s) auto

lemma split_sep_parts_no_sep: "c \<in> set (split_sep s) \<Longrightarrow> sep \<notin> set c"
  by (induction s arbitrary: c) (auto split: list.splits if_splits)

lemma split_sep_replicate: "split_sep (replicate k sep @ s) = replicate k [] @ split_sep s"
  by (induction k) auto

lemma split_sep_sep_join:
  "cs \<noteq> [] \<Longrightarrow> \<forall>c \<in> set cs. sep \<notin> set c \<Longrightarrow> split_sep (sep_join cs) = cs"
proof (induction cs rule: sep_join.induct)
  case 1
  then show ?case by simp
next
  case (2 x)
  then show ?case by (simp add: split_sep_no_sep)
next
  case (3 x y ys)
  then show ?case by (simp add: split_sep_append_sep split_sep_no_sep)
qed

lemma norm_step_abs: "ini \<noteq> 0 \<Longrightarrow> norm_step ini = norm_step 1"
  by (auto simp: norm_step_def fun_eq_iff)

lemma norm_step_good: "good_name n \<Longrightarrow> norm_step ini cs n = cs @ [n]"
  by (simp add: norm_step_def good_name_def)

lemma norm_step_empty: "norm_step ini cs [] = cs"
  by (simp add: norm_step_def)

lemma norm_step_inv:
  assumes "\<forall>c \<in> set cs. c \<noteq> [] \<and> sep \<notin> set c" and "sep \<notin> set p"
  shows "\<forall>c \<in> set (norm_step ini cs p). c \<noteq> [] \<and> sep \<notin> set c"
  using assms by (auto simp: norm_step_def dest: in_set_butlastD)

lemma foldl_norm_step_inv:
  assumes "\<forall>c \<in> set cs. c \<noteq> [] \<and> sep \<notin> set c" and "\<forall>p \<in> set ps. sep \<notin> set p"
  shows "\<forall>c \<in> set (foldl (norm_step ini) cs ps). c \<noteq> [] \<and> sep \<notin> set c"
  using assms
proof (induction ps arbitrary: cs)
  case Nil
  then show ?case by simp
next
  case (Cons p ps)
  have p: "sep \<notin> set p" and ps: "\<forall>p \<in> set ps. sep \<notin> set p"
    using Cons.prems(2) by simp_all
  have "\<forall>c \<in> set (norm_step ini cs p). c \<noteq> [] \<and> sep \<notin> set c"
    by (rule norm_step_inv [OF Cons.prems(1) p])
  then have "\<forall>c \<in> set (foldl (norm_step ini) (norm_step ini cs p) ps). c \<noteq> [] \<and> sep \<notin> set c"
    using ps by (rule Cons.IH)
  then show ?case by simp
qed

lemma norm_parts_inv: "\<forall>c \<in> set (norm_parts z). c \<noteq> [] \<and> sep \<notin> set c"
  unfolding norm_parts_def
  by (rule foldl_norm_step_inv) (auto dest: split_sep_parts_no_sep)

lemma initial_slashes_abs: "isabs z \<Longrightarrow> initial_slashes z \<noteq> 0"
  by (simp add: initial_slashes_def isabs_def)

lemma filter_split_normpath:
  assumes "isabs z"
  shows "filter (\<lambda>x. x \<noteq> []) (split_sep (normpath z)) = norm_parts z"
proof -
  let ?k = "initial_slashes z"
  let ?cs = "norm_parts z"
  have k: "?k \<noteq> 0" using assms by (rule initial_slashes_abs)
  have z: "z \<noteq> []" using assms by (auto simp: isabs_def startswith_def)
  have np: "normpath z = replicate ?k sep @ sep_join ?cs"
    using k z by (simp add: normpath_def norm_parts_def Let_def)
  have inv: "\<forall>c \<in> set ?cs. c \<noteq> [] \<and> sep \<notin> set c" by (rule norm_parts_inv)
  have "filter (\<lambda>x. x \<noteq> []) (split_sep (sep_join ?cs)) = ?cs"
  proof (cases "?cs = []")
    case True
    then show ?thesis by simp
  next
    case False
    then have "split_sep (sep_join ?cs) = ?cs"
      using inv by (intro split_sep_sep_join) auto
    moreover have "filter (\<lambda>x. x \<noteq> []) ?cs = ?cs"
      using inv by (intro filter_True) auto
    ultimately show ?thesis by simp
  qed
  then show ?thesis by (simp add: np split_sep_replicate)
qed

lemma abspath_abs_string: "abspath cwd x = normpath (abs_string cwd x)"
  by (simp add: abspath_def abs_string_def)

lemma suffix_sep_iff: "str_endswith a [sep] \<longleftrightarrow> a \<noteq> [] \<and> last a = sep"
  by (cases a rule: rev_cases) (auto simp: str_endswith_def)

lemma prefix_sep_iff: "startswith a [sep] \<longleftrightarrow> a \<noteq> [] \<and> hd a = sep"
  by (cases a) (auto simp: startswith_def)

lemma isabs_abs_string: "isabs cwd \<Longrightarrow> isabs (abs_string cwd x)"
  by (cases cwd) (auto simp: abs_string_def isabs_def os_path_join_def prefix_sep_iff)

lemma abs_string_join:
  assumes "isabs cwd" and "good_name n"
  shows "abs_string cwd (os_path_join a n) = os_path_join (abs_string cwd a) n"
proof -
  have n: "n \<noteq> []" "hd n \<noteq> sep"
    using assms(2) by (cases n; auto simp: good_name_def)+
  have c: "cwd \<noteq> []" "hd cwd = sep"
    using assms(1) by (auto simp: isabs_def prefix_sep_iff)
  show ?thesis
  proof (cases "a = []")
    case True
    then show ?thesis
      using n c
      by (simp add: abs_string_def os_path_join_def isabs_def prefix_sep_iff suffix_sep_iff)
  next
    case False
    then show ?thesis
      using n c
      by (simp add: abs_string_def os_path_join_def isabs_def prefix_sep_iff suffix_sep_iff)
  qed
qed

lemma foldl_norm_step_snoc_good:
  "good_name n \<Longrightarrow> foldl (norm_step k) cs (ps @ [n]) = foldl (norm_step k) cs ps @ [n]"
  by (simp add: norm_step_good)

lemma norm_parts_join:
  assumes "isabs x" and "good_name n"
  shows "norm_parts (os_path_join x n) = norm_parts x @ [n]"
proof -
  have n: "n \<noteq> []" "hd n \<noteq> sep" "sep \<notin> set n"
    using assms(2) by (cases n; auto simp: good_name_def)+
  have x: "x \<noteq> []" "hd x = sep"
    using assms(1) by (auto simp: isabs_def prefix_sep_iff)
  have absj: "isabs (os_path_join x n)"
    using x n by (simp add: os_path_join_def isabs_def prefix_sep_iff suffix_sep_iff)
  have k: "norm_step (initial_slashes (os_path_join x n)) = norm_step 1"
    "norm_step (initial_slashes x) = norm_step 1"
    by (rule norm_step_abs [OF initial_slashes_abs [OF absj]])
      (rule norm_step_abs [OF initial_slashes_abs [OF assms(1)]])
  show ?thesis
  proof (cases "last x = sep")
    case True
    then obtain y where y: "x = y @ [sep]"
      using x(1) by (metis append_butlast_last_id)
    have j: "os_path_join x n = y @ sep # n"
      using n y by (simp add: os_path_join_def prefix_sep_iff suffix_sep_iff)
    have "split_sep (os_path_join x n) = split_sep y @ [n]"
      using n by (simp add: j split_sep_append_sep split_sep_no_sep)
    moreover have "split_sep x = split_sep y @ [[]]"
      using split_sep_append_sep [of y "[]"] by (simp add: y)
    ultimately show ?thesis
      using assms(2) by (simp add: norm_parts_def k norm_step_good norm_step_empty)
  next
    case False
    have j: "os_path_join x n = x @ sep # n"
      using n x False by (simp add: os_path_join_def prefix_sep_iff suffix_sep_iff)
    have "split_sep (os_path_join x n) = split_sep x @ [n]"
      using n by (simp add: j split_sep_append_sep split_sep_no_sep)
    then show ?thesis
      using assms(2) by (simp add: norm_parts_def k norm_step_good)
  qed
qed

lemma abs_parts_join:
  assumes "isabs cwd" and "good_name n"
  shows "abs_parts cwd (os_path_join a n) = abs_parts cwd a @ [n]"
proof -
  have "abs_parts cwd (os_path_join a n) = norm_parts (abs_string cwd (os_path_join a n))"
    using assms(1)
    by (simp add: abs_parts_def abspath_abs_string filter_split_normpath isabs_abs_string)
  also have "\<dots> = norm_parts (os_path_join (abs_string cwd a) n)"
    using assms by (simp add: abs_string_join)
  also have "\<dots> = norm_parts (abs_string cwd a) @ [n]"
    using assms by (simp add: norm_parts_join isabs_abs_string)
  also have "norm_parts (abs_string cwd a) = abs_parts cwd a"
    using assms(1)
    by (simp add: abs_parts_def abspath_abs_string filter_split_normpath isabs_abs_string)
  finally show ?thesis .
qed

lemma abs_parts_foldl_join:
  assumes "isabs cwd" and "\<forall>n \<in> set ns. good_name n"
  shows "abs_parts cwd (foldl os_path_join a ns) = abs_parts cwd a @ ns"
  using assms(2)
proof (induction ns rule: rev_induct)
  case Nil
  then show ?case by simp
next
  case (snoc n ns)
  then show ?case using assms(1) by (simp add: abs_parts_join)
qed

lemma join_good_not_Nil: "good_name n \<Longrightarrow> os_path_join a n \<noteq> []"
  by (auto simp: os_path_join_def good_name_def)

lemma sep_join_snoc: "ms \<noteq> [] \<Longrightarrow> sep_join (ms @ [m]) = sep_join ms @ sep # m"
  by (induction ms rule: sep_join.induct) auto

lemma sep_join_last:
  "cs \<noteq> [] \<Longrightarrow> \<forall>c \<in> set cs. c \<noteq> [] \<and> sep \<notin> set c \<Longrightarrow>
     sep_join cs \<noteq> [] \<and> last (sep_join cs) \<noteq> sep"
proof (induction cs rule: sep_join.induct)
  case 1
  then show ?case by simp
next
  case (2 x)
  then show ?case by (cases x rule: rev_cases) auto
next
  case (3 x y ys)
  then show ?case by auto
qed

lemma foldl_join_sep_join:
  assumes "\<forall>n \<in> set ns. good_name n" and "good_name n"
  shows "foldl os_path_join n ns = sep_join (n # ns)"
  using assms(1)
proof (induction ns rule: rev_induct)
  case Nil
  then show ?case by simp
next
  case (snoc m ms)
  have m: "m \<noteq> []" "hd m \<noteq> sep"
    using snoc.prems by (cases m; auto simp: good_name_def)+
  have "\<forall>c \<in> set (n # ms). c \<noteq> [] \<and> sep \<notin> set c"
    using snoc.prems assms(2) by (auto simp: good_name_def)
  then have l: "sep_join (n # ms) \<noteq> []" "last (sep_join (n # ms)) \<noteq> sep"
    using sep_join_last [of "n # ms"] by simp_all
  have "foldl os_path_join n (ms @ [m]) = os_path_join (sep_join (n # ms)) m"
    using snoc by simp
  also have "\<dots> = sep_join (n # ms) @ sep # m"
    using m l by (simp add: os_path_join_def prefix_sep_iff suffix_sep_iff)
  also have "\<dots> = sep_join ((n # ms) @ [m])"
    by (rule sep_join_snoc [symmetric]) simp
  finally show ?case by simp
qed

lemma relpath_below_start:
  assumes "isabs cwd" and "\<forall>n \<in> set ns. good_name n" and "ns \<noteq> []"
  shows "relpath cwd (foldl os_path_join start ns) start = Inr (sep_join ns)"
proof -
  let ?p = "foldl os_path_join start ns"
  obtain ms m where ns: "ns = ms @ [m]"
    using assms(3) by (metis rev_exhaust)
  have "?p = os_path_join (foldl os_path_join start ms) m" by (simp add: ns)
  then have p: "?p \<noteq> []"
    using assms(2) ns by (simp add: join_good_not_Nil)
  have parts: "abs_parts cwd ?p = abs_parts cwd start @ ns"
    using assms(1,2) by (rule abs_parts_foldl_join)
  have lcp: "commonprefix xs (xs @ ns) = xs" for xs :: "string list"
    by (induction xs) auto
  have rel: "foldl os_path_join (hd ns) (tl ns) = sep_join ns"
    using assms(2,3) foldl_join_sep_join [of "tl ns" "hd ns"]
    by (cases ns) auto
  show ?thesis
    using p assms(3) parts lcp rel
    by (simp add: relpath_def Let_def abs_parts_def [symmetric])
qed

section \<open>Properties of the scanner\<close>

lemmas path_eval = relpath_def abspath_def normpath_def isabs_def sep_def os_path_join_def
  initial_slashes_def norm_step_def startswith_def str_endswith_def

lemmas gen_eval = gen_then_def gen_open_def gen_raise_def gen_yield_def gen_done_def
  yield_if_match_def

lemmas example_eval = data_fs_def imgs_def repo_fs_def repo_def shots_fs_def shots_def consume_def

lemmas tree_eval = good_name_def hidden_def found_def matches_def basename_def

subsection \<open>Sequencing of generator parts\<close>

lemma raised_gen_then:
  "raised (gen_then a b) = (case raised a of Some e \<Rightarrow> Some e | None \<Rightarrow> raised b)"
  by (simp add: gen_then_def split: option.splits)

lemma raised_gen_then_None:
  "raised (gen_then a b) = None \<longleftrightarrow> raised a = None \<and> raised b = None"
  by (simp add: gen_then_def split: option.splits)

lemma yielded_gen_then:
  "yielded (gen_then a b) = (if raised a = None then yielded a @ yielded b else yielded a)"
  by (simp add: gen_then_def split: option.splits)

lemma scanned_gen_then:
  "scanned (gen_then a b) = (if raised a = None then scanned a @ scanned b else scanned a)"
  by (simp add: gen_then_def split: option.splits)

lemma set_yielded_gen_then:
  "set (yielded (gen_then a b)) \<subseteq> set (yielded a) \<union> set (yielded b)"
  by (auto simp: yielded_gen_then)

lemma gen_parts [simp]:
  "yielded gen_done = []" "scanned gen_done = []" "raised gen_done = None"
  "yielded (gen_yield v) = [v]" "scanned (gen_yield v) = []" "raised (gen_yield v) = None"
  "yielded (gen_raise e) = []" "scanned (gen_raise e) = []" "raised (gen_raise e) = Some e"
  "yielded (gen_open p) = []" "scanned (gen_open p) = [p]" "raised (gen_open p) = None"
  by (simp_all add: gen_done_def gen_yield_def gen_raise_def gen_open_def)

lemma yielded_yield_if_match:
  "yielded (yield_if_match suffix v) = (if matches suffix v then [v] else [])"
  by (auto simp: yield_if_match_def matches_def split: sum.splits)

lemma scanned_yield_if_match [simp]: "scanned (yield_if_match suffix v) = []"
  by (simp add: yield_if_match_def split: sum.splits)

lemma raised_yield_if_match:
  "raised (yield_if_match suffix v) =
     (if suffix = PNone then None
      else case endswith v suffix of Inl e \<Rightarrow> Some e | Inr b \<Rightarrow> None)"
  by (simp add: yield_if_match_def split: sum.splits)

subsection \<open>The path of an entry, relative to the root\<close>

lemma entry_relpath:
  assumes "isabs cwd" and "\<forall>n \<in> set pre. good_name n" and "good_name name"
    and "dir_path = foldl os_path_join root pre"
  shows "relpath cwd (os_path_join dir_path name) root = Inr (sep_join (pre @ [name]))"
proof -
  have "os_path_join dir_path name = foldl os_path_join root (pre @ [name])"
    using assms(4) by simp
  moreover have "\<forall>n \<in> set (pre @ [name]). good_name n"
    using assms(2,3) by simp
  ultimately show ?thesis
    using relpath_below_start [OF assms(1), of "pre @ [name]" root] by simp
qed

subsection \<open>The files of a tree\<close>

lemma files_prefix:
  "ns \<in> set (files_node pre nd) \<Longrightarrow> take (length pre) ns = pre"
  "ns \<in> set (files_entries pre es) \<Longrightarrow>
     length pre < length ns \<and> take (length pre) ns = pre \<and> ns ! length pre \<in> fst ` set es"
proof (induction pre nd and pre es arbitrary: ns and ns rule: files_node_files_entries.induct)
  case (1 pre)
  then show ?case by simp
next
  case (2 pre es)
  then show ?case by simp
next
  case (3 pre)
  then show ?case by simp
next
  case (4 pre name nd es)
  from "4.prems" consider (a) "ns \<in> set (files_node (pre @ [name]) nd)"
    | (b) "ns \<in> set (files_entries pre es)" by auto
  then show ?case
  proof cases
    case a
    then have t: "take (Suc (length pre)) ns = pre @ [name]"
      using "4.IH"(1) by simp
    then have l: "length pre < length ns"
      by (metis length_append_singleton length_take lessI min_less_iff_conj)
    have "take (length pre) ns = take (length pre) (take (Suc (length pre)) ns)"
      by (simp add: min_def)
    then have p: "take (length pre) ns = pre" using t by simp
    have "ns ! length pre = (take (Suc (length pre)) ns) ! length pre" by simp
    then have "ns ! length pre = name" using t by simp
    then show ?thesis using l p by simp
  next
    case b
    then show ?thesis using "4.IH"(2) by auto
  qed
qed

lemma files_good:
  "wf_node nd \<Longrightarrow> \<forall>n \<in> set pre. good_name n \<Longrightarrow>
     ns \<in> set (files_node pre nd) \<Longrightarrow> \<forall>n \<in> set ns. good_name n"
  "wf_entries es \<Longrightarrow> \<forall>n \<in> set pre. good_name n \<Longrightarrow>
     ns \<in> set (files_entries pre es) \<Longrightarrow> \<forall>n \<in> set ns. good_name n"
proof (induction pre nd and pre es arbitrary: ns and ns rule: files_node_files_entries.induct)
  case (1 pre)
  then show ?case by simp
next
  case (2 pre es)
  then show ?case by simp
next
  case (3 pre)
  then show ?case by simp
next
  case (4 pre name nd es)
  from "4.prems"(3) consider (a) "ns \<in> set (files_node (pre @ [name]) nd)"
    | (b) "ns \<in> set (files_entries pre es)" by auto
  then show ?case
  proof cases
    case a
    have "\<forall>n \<in> set (pre @ [name]). good_name n" using "4.prems"(1,2) by simp
    moreover have "wf_node nd" using "4.prems"(1) by simp
    ultimately show ?thesis using "4.IH"(1) a by blast
  next
    case b
    moreover have "wf_entries es" using "4.prems"(1) by simp
    ultimately show ?thesis using "4.IH"(2) "4.prems"(2) by blast
  qed
qed

subsection \<open>What a scan yields\<close>

lemma is_file_iff: "is_file nd \<longleftrightarrow> nd = File"
  by (cases nd) simp_all

lemma for_entries_Cons:
  assumes "isabs cwd" and "\<forall>n \<in> set pre. good_name n" and "good_name name"
    and "dir_path = foldl os_path_join root pre"
  shows "for_entries cwd root dir_path suffix recursive ((name, nd) # es) =
           gen_then
             (if \<not> hidden name \<and> is_file nd then yield_if_match suffix (sep_join (pre @ [name]))
              else if recursive
                then inner_scandir cwd root (foldl os_path_join root (pre @ [name]))
                       suffix recursive nd
                else gen_done)
             (for_entries cwd root dir_path suffix recursive es)"
  using entry_relpath [OF assms] assms(4)
  by (simp add: hidden_def Let_def)

lemma scan_sound:
  "isabs cwd \<Longrightarrow> wf_node nd \<Longrightarrow> \<forall>n \<in> set pre. good_name n \<Longrightarrow>
           dir_path = foldl os_path_join root pre \<Longrightarrow>
           v \<in> set (yielded (inner_scandir cwd root dir_path suffix recursive nd)) \<Longrightarrow>
           \<exists>ns \<in> set (files_node pre nd). found suffix ns \<and> v = sep_join ns"
  "isabs cwd \<Longrightarrow> wf_entries es \<Longrightarrow> \<forall>n \<in> set pre. good_name n \<Longrightarrow>
           dir_path = foldl os_path_join root pre \<Longrightarrow>
           v \<in> set (yielded (for_entries cwd root dir_path suffix recursive es)) \<Longrightarrow>
           \<exists>ns \<in> set (files_entries pre es). found suffix ns \<and> v = sep_join ns"
proof (induction cwd root dir_path suffix recursive nd and cwd root dir_path suffix recursive es
    arbitrary: pre and pre rule: inner_scandir_for_entries.induct)
  case (1 cwd root dir_path suffix recursive)
  then show ?case by (simp add: yielded_gen_then)
next
  case (2 cwd root dir_path suffix recursive es)
  from "2.prems"(5) have "v \<in> set (yielded (for_entries cwd root dir_path suffix recursive es))"
    by (simp add: yielded_gen_then)
  moreover have "wf_entries es" using "2.prems"(2) by simp
  ultimately show ?case using "2.IH" "2.prems"(1,3,4) by simp
next
  case (3 cwd root dir_path suffix recursive)
  then show ?case by simp
next
  case (4 cwd root dir_path suffix recursive name nd es)
  have abs: "isabs cwd" using "4.prems"(1) .
  have gn: "good_name name" and wn: "wf_node nd" and we: "wf_entries es"
    using "4.prems"(2) by simp_all
  have pre': "\<forall>n \<in> set (pre @ [name]). good_name n" using "4.prems"(3) gn by simp
  let ?first = "if \<not> hidden name \<and> is_file nd then yield_if_match suffix (sep_join (pre @ [name]))
      else if recursive
        then inner_scandir cwd root (foldl os_path_join root (pre @ [name])) suffix recursive nd
        else gen_done"
  let ?rest = "for_entries cwd root dir_path suffix recursive es"
  have eq: "for_entries cwd root dir_path suffix recursive ((name, nd) # es) = gen_then ?first ?rest"
    by (rule for_entries_Cons [OF abs "4.prems"(3) gn "4.prems"(4)])
  from "4.prems"(5) have "v \<in> set (yielded ?first) \<or> v \<in> set (yielded ?rest)"
    unfolding eq using set_yielded_gen_then [of ?first ?rest] by blast
  then show ?case
  proof
    assume v: "v \<in> set (yielded ?first)"
    show ?thesis
    proof (cases "\<not> hidden name \<and> is_file nd")
      case True
      then have "nd = File" by (simp add: is_file_iff)
      moreover have "v = sep_join (pre @ [name])" "matches suffix (sep_join (pre @ [name]))"
        using v True by (simp_all add: yielded_yield_if_match split: if_splits)
      ultimately show ?thesis using True by (simp add: found_def)
    next
      case False
      then have r: recursive and
        v': "v \<in> set (yielded (inner_scandir cwd root (foldl os_path_join root (pre @ [name]))
               suffix recursive nd))"
        using v by (simp_all split: if_splits)
      have "\<not> (\<not> startswith name ''.'' \<and> is_file nd)" using False by (simp add: hidden_def)
      from "4.IH"(1) [OF _ this r abs wn pre' _ ] v' "4.prems"(4)
      have "\<exists>ns \<in> set (files_node (pre @ [name]) nd). found suffix ns \<and> v = sep_join ns"
        by simp
      then show ?thesis by auto
    qed
  next
    assume "v \<in> set (yielded ?rest)"
    from "4.IH"(2) [OF abs we "4.prems"(3,4) this] show ?thesis by auto
  qed
qed

lemma scan_complete:
  "isabs cwd \<Longrightarrow> wf_node nd \<Longrightarrow> \<forall>n \<in> set pre. good_name n \<Longrightarrow>
     dir_path = foldl os_path_join root pre \<Longrightarrow> recursive \<Longrightarrow>
     raised (inner_scandir cwd root dir_path suffix recursive nd) = None \<Longrightarrow>
     yielded (inner_scandir cwd root dir_path suffix recursive nd)
       = map sep_join (filter (found suffix) (files_node pre nd))"
  "isabs cwd \<Longrightarrow> wf_entries es \<Longrightarrow> \<forall>n \<in> set pre. good_name n \<Longrightarrow>
     dir_path = foldl os_path_join root pre \<Longrightarrow> recursive \<Longrightarrow>
     raised (for_entries cwd root dir_path suffix recursive es) = None \<Longrightarrow>
     yielded (for_entries cwd root dir_path suffix recursive es)
       = map sep_join (filter (found suffix) (files_entries pre es))"
proof (induction cwd root dir_path suffix recursive nd and cwd root dir_path suffix recursive es
    arbitrary: pre and pre rule: inner_scandir_for_entries.induct)
  case (1 cwd root dir_path suffix recursive)
  then show ?case by (simp add: raised_gen_then)
next
  case (2 cwd root dir_path suffix recursive es)
  have "raised (for_entries cwd root dir_path suffix recursive es) = None"
    using "2.prems"(6) by (simp add: raised_gen_then)
  moreover have "wf_entries es" using "2.prems"(2) by simp
  ultimately have "yielded (for_entries cwd root dir_path suffix recursive es)
      = map sep_join (filter (found suffix) (files_entries pre es))"
    using "2.IH" "2.prems"(1,3,4,5) by simp
  then show ?case by (simp add: yielded_gen_then)
next
  case (3 cwd root dir_path suffix recursive)
  then show ?case by simp
next
  case (4 cwd root dir_path suffix recursive name nd es)
  have abs: "isabs cwd" using "4.prems"(1) .
  have r: recursive using "4.prems"(5) .
  have gn: "good_name name" and wn: "wf_node nd" and we: "wf_entries es"
    using "4.prems"(2) by simp_all
  have pre': "\<forall>n \<in> set (pre @ [name]). good_name n" using "4.prems"(3) gn by simp
  let ?sub = "inner_scandir cwd root (foldl os_path_join root (pre @ [name])) suffix recursive nd"
  let ?first = "if \<not> hidden name \<and> is_file nd then yield_if_match suffix (sep_join (pre @ [name]))
      else if recursive then ?sub else gen_done"
  let ?rest = "for_entries cwd root dir_path suffix recursive es"
  have eq: "for_entries cwd root dir_path suffix recursive ((name, nd) # es) = gen_then ?first ?rest"
    by (rule for_entries_Cons [OF abs "4.prems"(3) gn "4.prems"(4)])
  have ok: "raised ?first = None" "raised ?rest = None"
    using "4.prems"(6) unfolding eq raised_gen_then_None by simp_all
  have rest: "yielded ?rest = map sep_join (filter (found suffix) (files_entries pre es))"
    by (rule "4.IH"(2) [OF abs we "4.prems"(3,4) r ok(2)])
  have first: "yielded ?first = map sep_join (filter (found suffix) (files_node (pre @ [name]) nd))"
  proof (cases "\<not> hidden name \<and> is_file nd")
    case True
    then have "nd = File" by (simp add: is_file_iff)
    then show ?thesis using True by (simp add: yielded_yield_if_match found_def)
  next
    case False
    have n: "\<not> (\<not> startswith name ''.'' \<and> is_file nd)" using False by (simp add: hidden_def)
    have f: "?first = ?sub" using r by (simp only: if_not_P [OF False] if_True)
    have "raised ?sub = None" using ok(1) unfolding f .
    then have "yielded ?sub = map sep_join (filter (found suffix) (files_node (pre @ [name]) nd))"
      using "4.IH"(1) [OF _ n r abs wn pre' _ r] "4.prems"(4) by simp
    then show ?thesis unfolding f .
  qed
  show ?case
    unfolding eq using ok(1) first rest by (simp add: yielded_gen_then)
qed

lemma scanned_for_entries_flat:
  "scanned (for_entries cwd root dir_path suffix False es) = []"
  by (induction es) (auto simp: scanned_gen_then Let_def split: sum.splits)

lemma yielded_for_entries_flat:
  assumes "isabs cwd" and "\<forall>e \<in> set es. good_name (fst e)"
    and "v \<in> set (yielded (for_entries cwd root root suffix False es))"
  shows "(v, File) \<in> set es \<and> \<not> hidden v \<and> matches suffix v"
  using assms(2,3)
proof (induction es)
  case Nil
  then show ?case by simp
next
  case (Cons e es)
  obtain name nd where e: "e = (name, nd)" by (cases e)
  have gn: "good_name name" using Cons.prems(1) e by simp
  let ?first = "if \<not> hidden name \<and> is_file nd then yield_if_match suffix (sep_join ([] @ [name]))
      else if False
        then inner_scandir cwd root (foldl os_path_join root ([] @ [name])) suffix False nd
        else gen_done"
  let ?rest = "for_entries cwd root root suffix False es"
  have eq: "for_entries cwd root root suffix False ((name, nd) # es) = gen_then ?first ?rest"
    by (rule for_entries_Cons [OF assms(1) _ gn]) simp_all
  from Cons.prems(2) have "v \<in> set (yielded ?first) \<or> v \<in> set (yielded ?rest)"
    unfolding e eq using set_yielded_gen_then [of ?first ?rest] by blast
  then show ?case
  proof
    assume "v \<in> set (yielded ?first)"
    then show ?thesis
      using e by (auto simp: yielded_yield_if_match is_file_iff split: if_splits)
  next
    assume "v \<in> set (yielded ?rest)"
    then show ?thesis using Cons.IH Cons.prems(1) by simp
  qed
qed

subsection \<open>No file twice\<close>

lemma files_node_prefix_nth:
  assumes "ns \<in> set (files_node (pre @ [name]) nd)"
  shows "length pre < length ns \<and> ns ! length pre = name"
proof -
  have t: "take (Suc (length pre)) ns = pre @ [name]"
    using files_prefix(1) [OF assms] by simp
  then have l: "length pre < length ns"
    by (metis length_append_singleton length_take lessI min_less_iff_conj)
  have "ns ! length pre = (take (Suc (length pre)) ns) ! length pre" by simp
  then show ?thesis using t l by simp
qed

lemma distinct_files:
  "wf_node nd \<Longrightarrow> distinct (files_node pre nd)"
  "wf_entries es \<Longrightarrow> distinct (map fst es) \<Longrightarrow> distinct (files_entries pre es)"
proof (induction pre nd and pre es rule: files_node_files_entries.induct)
  case (1 pre)
  then show ?case by simp
next
  case (2 pre es)
  then show ?case by simp
next
  case (3 pre)
  then show ?case by simp
next
  case (4 pre name nd es)
  have d1: "distinct (files_node (pre @ [name]) nd)" using "4.IH"(1) "4.prems"(1) by simp
  have d2: "distinct (files_entries pre es)" using "4.IH"(2) "4.prems" by simp
  have "set (files_node (pre @ [name]) nd) \<inter> set (files_entries pre es) = {}"
  proof (rule ccontr)
    assume "set (files_node (pre @ [name]) nd) \<inter> set (files_entries pre es) \<noteq> {}"
    then obtain ns where a: "ns \<in> set (files_node (pre @ [name]) nd)"
      and b: "ns \<in> set (files_entries pre es)" by blast
    have "ns ! length pre = name" using files_node_prefix_nth [OF a] by simp
    moreover have "ns ! length pre \<in> fst ` set es" using files_prefix(2) [OF b] by simp
    ultimately show False using "4.prems"(2) by simp
  qed
  then show ?case using d1 d2 by simp
qed

lemma split_sep_sep_join_good:
  assumes "ns \<noteq> []" and "\<forall>n \<in> set ns. good_name n"
  shows "split_sep (sep_join ns) = ns"
proof -
  have "\<forall>c \<in> set ns. sep \<notin> set c" using assms(2) by (simp add: good_name_def)
  then show ?thesis by (rule split_sep_sep_join [OF assms(1)])
qed

lemma sep_join_inj:
  assumes "ns \<noteq> []" and "ms \<noteq> []"
    and "\<forall>n \<in> set ns. good_name n" and "\<forall>n \<in> set ms. good_name n"
    and "sep_join ns = sep_join ms"
  shows "ns = ms"
proof -
  have "ns = split_sep (sep_join ns)"
    by (rule split_sep_sep_join_good [OF assms(1,3), symmetric])
  also have "\<dots> = split_sep (sep_join ms)"
    by (simp only: assms(5))
  also have "\<dots> = ms"
    by (rule split_sep_sep_join_good [OF assms(2,4)])
  finally show ?thesis .
qed

lemma basename_sep_join:
  assumes "ns \<noteq> []" and "\<forall>n \<in> set ns. good_name n"
  shows "basename (sep_join ns) = last ns"
proof -
  have "split_sep (sep_join ns) = ns"
    by (rule split_sep_sep_join_good [OF assms])
  then show ?thesis by (simp add: basename_def)
qed

lemma sep_join_not_abs:
  assumes "ns \<noteq> []" and "\<forall>n \<in> set ns. good_name n"
  shows "sep_join ns \<noteq> [] \<and> hd (sep_join ns) \<noteq> sep"
proof -
  obtain n ms where ns: "ns = n # ms" using assms(1) by (cases ns) auto
  have n: "n \<noteq> []" "hd n \<noteq> sep"
    using assms(2) ns by (cases n; auto simp: good_name_def)+
  show ?thesis using n by (cases ms) (auto simp: ns)
qed

lemma files_entries_good:
  assumes "wf_entries es" and "ns \<in> set (files_entries [] es)"
  shows "ns \<noteq> [] \<and> (\<forall>n \<in> set ns. good_name n)"
  using files_good(2) [OF assms(1) _ assms(2)] files_prefix(2) [OF assms(2)] by auto

lemma distinct_yielded_files:
  assumes "wf_entries es" and "distinct (map fst es)"
  shows "distinct (map sep_join (filter P (files_entries [] es)))"
proof -
  have "distinct (filter P (files_entries [] es))"
    using distinct_files(2) [OF assms] by simp
  moreover have "inj_on sep_join (set (filter P (files_entries [] es)))"
  proof (rule inj_onI)
    fix ns ms
    assume "ns \<in> set (filter P (files_entries [] es))"
      and "ms \<in> set (filter P (files_entries [] es))" and e: "sep_join ns = sep_join ms"
    then have "ns \<in> set (files_entries [] es)" "ms \<in> set (files_entries [] es)" by simp_all
    then have "ns \<noteq> [] \<and> (\<forall>n \<in> set ns. good_name n)" "ms \<noteq> [] \<and> (\<forall>n \<in> set ms. good_name n)"
      using files_entries_good [OF assms(1)] by blast+
    then show "ns = ms" using e sep_join_inj by blast
  qed
  ultimately show ?thesis by (simp add: distinct_map)
qed

subsection \<open>From the call to the scan of the tree\<close>

lemma consume_scandir:
  assumes "str_or_path dir_path = Some root"
    and "consume (scandir dir_path suffix recursive) fs = Some r"
  shows "r = (case resolve fs root of
                None \<Rightarrow> gen_then (gen_open root) (gen_raise FileNotFoundError)
              | Some nd \<Rightarrow> inner_scandir (getcwd fs) root root suffix recursive nd)"
  using assms by (auto simp: consume_def scandir_def split: if_splits)

lemma consume_scandir_Some:
  assumes "str_or_path dir_path = Some root" and "resolve fs root = Some nd"
    and "consume (scandir dir_path suffix recursive) fs = Some r"
  shows "r = inner_scandir (getcwd fs) root root suffix recursive nd"
  using consume_scandir [OF assms(1,3)] assms(2) by simp

lemma yielded_inner_sound:
  assumes "isabs cwd" and "wf_node nd"
    and "v \<in> set (yielded (inner_scandir cwd root root suffix recursive nd))"
  shows "\<exists>ns. ns \<noteq> [] \<and> (\<forall>n \<in> set ns. good_name n) \<and> found suffix ns \<and> v = sep_join ns"
proof -
  obtain ns where ns: "ns \<in> set (files_node [] nd)" "found suffix ns" "v = sep_join ns"
    using scan_sound(1) [OF assms(1,2), of "[]" root root v suffix recursive] assms(3) by auto
  have "nd \<noteq> File" using assms(3) by (auto simp: yielded_gen_then)
  then obtain es where es: "nd = Dir es" by (cases nd) auto
  then have "ns \<in> set (files_entries [] es)" "wf_entries es" using ns(1) assms(2) by simp_all
  then have "ns \<noteq> [] \<and> (\<forall>n \<in> set ns. good_name n)" using files_entries_good by blast
  then show ?thesis using ns by blast
qed

lemma wf_entries_names: "wf_entries es \<Longrightarrow> e \<in> set es \<Longrightarrow> good_name (fst e)"
  by (induction es) auto

lemma raised_inner_None_Dir:
  assumes "raised (inner_scandir cwd root dir_path suffix recursive nd) = None"
  obtains es where "nd = Dir es"
  using assms by (cases nd) (simp_all add: raised_gen_then)

lemma scan_folder_result:
  assumes "str_or_path path = Some p"
    and "consume (scandir (PStr p) IMG_EXTENSIONS True) fs = Some r"
  shows "result (scan_folder fs path) =
           (case raised r of
              Some e \<Rightarrow> Inl e
            | None \<Rightarrow> if yielded r = [] then Inl AssertionError
                      else Inr (map (os_path_join p) (yielded r)))"
  using assms
  by (auto simp: scan_folder_def consume_def Let_def split: sum.splits option.splits)

lemma join_below:
  assumes "ns \<noteq> []" and "\<forall>n \<in> set ns. good_name n"
  shows "startswith (os_path_join p (sep_join ns)) p"
proof -
  have "sep_join ns \<noteq> [] \<and> hd (sep_join ns) \<noteq> sep" by (rule sep_join_not_abs [OF assms])
  then show ?thesis
    by (simp add: os_path_join_def prefix_sep_iff) (simp add: startswith_def)
qed

subsection \<open>A scan that runs to its end\<close>

text \<open>
  When a recursive scan ends without an exception it has yielded, once each and in
  enumeration order, the files below the root whose name is not hidden and whose
  relative path passes the suffix filter, each as the names from the root down to
  the file joined by the separator.
\<close>

lemma complete_scan_yields_all:
  assumes "isabs (getcwd fs)" and "str_or_path dir_path = Some root"
    and "resolve fs root = Some nd" and "wf_node nd"
    and "consume (scandir dir_path suffix True) fs = Some r"
    and "raised r = None"
  shows "yielded r = map sep_join (filter (found suffix) (files_node [] nd))
         \<and> distinct (yielded r)"
proof -
  have r: "r = inner_scandir (getcwd fs) root root suffix True nd"
    by (rule consume_scandir_Some [OF assms(2,3,5)])
  have ok: "raised (inner_scandir (getcwd fs) root root suffix True nd) = None"
    using assms(6) by (simp only: r)
  then obtain es where es: "nd = Dir es" by (rule raised_inner_None_Dir)
  have y: "yielded r = map sep_join (filter (found suffix) (files_node [] nd))"
    unfolding r by (rule scan_complete(1) [OF assms(1,4) _ _ _ ok]) simp_all
  have "distinct (map sep_join (filter (found suffix) (files_entries [] es)))"
    using assms(4) es by (intro distinct_yielded_files) simp_all
  then show ?thesis using y es by simp
qed

text \<open>
  And \<open>scan_folder\<close>, when its scan ends without an exception, raises
  \<open>AssertionError\<close> if no file passes the image-suffix list and otherwise returns
  the files found, each joined to \<open>path\<close> and starting with it.
\<close>

lemma scan_folder_after_complete_scan:
  assumes "isabs (getcwd fs)" and "str_or_path path = Some p"
    and "resolve fs p = Some nd" and "wf_node nd"
    and "consume (scandir (PStr p) IMG_EXTENSIONS True) fs = Some r"
    and "raised r = None"
  shows "result (scan_folder fs path) =
           (if filter (found IMG_EXTENSIONS) (files_node [] nd) = [] then Inl AssertionError
            else Inr (map (\<lambda>ns. os_path_join p (sep_join ns))
                       (filter (found IMG_EXTENSIONS) (files_node [] nd))))
         \<and> (\<forall>ns \<in> set (filter (found IMG_EXTENSIONS) (files_node [] nd)).
               startswith (os_path_join p (sep_join ns)) p)"
proof -
  let ?images = "filter (found IMG_EXTENSIONS) (files_node [] nd)"
  have r: "r = inner_scandir (getcwd fs) p p IMG_EXTENSIONS True nd"
    by (rule consume_scandir_Some [OF _ assms(3,5)]) simp
  have ok: "raised (inner_scandir (getcwd fs) p p IMG_EXTENSIONS True nd) = None"
    using assms(6) by (simp only: r)
  then obtain es where es: "nd = Dir es" by (rule raised_inner_None_Dir)
  have y: "yielded r = map sep_join ?images"
    unfolding r by (rule scan_complete(1) [OF assms(1,4) _ _ _ ok]) simp_all
  have res: "result (scan_folder fs path) =
      (if ?images = [] then Inl AssertionError
       else Inr (map (\<lambda>ns. os_path_join p (sep_join ns)) ?images))"
    using scan_folder_result [OF assms(2,5)] assms(6) y by (simp add: comp_def)
  have "startswith (os_path_join p (sep_join ns)) p" if "ns \<in> set ?images" for ns
  proof -
    have "ns \<in> set (files_entries [] es)" using that es by simp
    moreover have "wf_entries es" using assms(4) es by simp
    ultimately have "ns \<noteq> [] \<and> (\<forall>n \<in> set ns. good_name n)"
      using files_entries_good by blast
    then show ?thesis using join_below by blast
  qed
  then show ?thesis using res by blast
qed

subsection \<open>The example trees, scanned\<close>

lemma example_cwd:
  "isabs (getcwd data_fs)" "isabs (getcwd repo_fs)"
  by (simp_all add: example_eval path_eval)

lemma example_resolve:
  "resolve data_fs ''/data/imgs'' = Some imgs"
  "resolve repo_fs ''/data/repo'' = Some repo"
  by (simp_all add: example_eval)

lemma example_wf: "wf_node imgs" "wf_node repo"
  by (simp_all add: example_eval tree_eval sep_def)

lemma scan_imgs_flat:
  "consume (scandir (PStr ''/data/imgs'') PNone False) data_fs =
     Some \<lparr>yielded = [''a.png'', ''b.txt''], scanned = [''/data/imgs''], raised = None\<rparr>"
  by (simp add: scandir_def example_eval path_eval gen_eval)

lemma scan_imgs_all:
  "consume (scandir (PStr ''/data/imgs'') PNone True) data_fs =
     Some \<lparr>yielded = [''a.png'', ''b.txt''],
           scanned = [''/data/imgs'', ''/data/imgs/.hidden.png''],
           raised = Some NotADirectoryError\<rparr>"
  by (simp add: scandir_def example_eval path_eval gen_eval)

lemma scan_repo_all:
  "consume (scandir (PStr ''/data/repo'') PNone True) repo_fs =
     Some \<lparr>yielded = [''a.png'', ''.git/logo.png'', ''sub/c.jpg'', ''sub/notes.txt''],
           scanned = [''/data/repo'', ''/data/repo/.git'', ''/data/repo/sub''],
           raised = None\<rparr>"
  by (simp add: scandir_def example_eval path_eval gen_eval)

lemma scan_repo_png:
  "consume (scandir (PStr ''/data/repo'') (PStr ''.png'') True) repo_fs =
     Some \<lparr>yielded = [''a.png'', ''.git/logo.png''],
           scanned = [''/data/repo'', ''/data/repo/.git'', ''/data/repo/sub''],
           raised = None\<rparr>"
  by (simp add: scandir_def example_eval path_eval gen_eval)

lemma scan_shots_images:
  "consume (scandir (PStr ''/data/shots'') IMG_EXTENSIONS True) shots_fs =
     Some \<lparr>yielded = [''photo.jpg''],
           scanned = [''/data/shots'', ''/data/shots/.DS_Store''],
           raised = Some NotADirectoryError\<rparr>"
  by (simp add: scandir_def IMG_EXTENSIONS_def example_eval path_eval gen_eval)

lemma scan_folder_shots:
  "scan_folder shots_fs (PStr ''/data/shots'') =
     \<lparr>result = Inl NotADirectoryError,
      opened = [''/data/shots'', ''/data/shots/.DS_Store'']\<rparr>"
  by (simp add: scan_folder_def scandir_def IMG_EXTENSIONS_def example_eval path_eval gen_eval)

lemma files_imgs:
  "files_node [] imgs = [[''a.png''], [''b.txt''], [''.hidden.png''], [''sub'', ''c.jpg'']]"
  by (simp add: imgs_def)

subsection \<open>The type checks\<close>

text \<open>
  C9. When \<open>dir_path\<close> of \<open>scandir\<close>, or \<open>path\<close> of \<open>scan_folder\<close>, is neither a
  \<open>str\<close> nor a \<open>Path\<close>, the call raises \<open>TypeError\<close>: \<open>scandir\<close> raises it in the
  call, where no generator exists yet that could read the file system, and
  \<open>scan_folder\<close> raises it with no path passed to \<open>os.scandir\<close>.
\<close>

theorem type_error_before_io:
  assumes "str_or_path v = None"
  shows "scandir v suffix recursive = Inl TypeError
         \<and> scan_folder fs v = \<lparr>result = Inl TypeError, opened = []\<rparr>"
  using assms by (simp add: scandir_def scan_folder_def)

theorem type_error_before_io_witness:
  "scandir (PInt 3) PNone True = Inl TypeError
   \<and> scan_folder data_fs (PList [PStr ''/data/imgs'']) = \<lparr>result = Inl TypeError, opened = []\<rparr>"
  using type_error_before_io [of "PInt 3" PNone True data_fs]
    type_error_before_io [of "PList [PStr ''/data/imgs'']" PNone True data_fs]
  by simp

text \<open>
  C5, as the claim states it, fails: a set of strings is not accepted as suffix
  filter.
\<close>

theorem scandir_set_suffix_counterexample:
  "scandir (PStr ''/data/imgs'') (PSet [PStr ''.png'', PStr ''.jpg'']) False = Inl TypeError"
  by (simp add: scandir_def)

text \<open>
  C5, amended. With \<open>dir_path\<close> a \<open>str\<close> or a \<open>Path\<close>, the call of \<open>scandir\<close>
  returns its generator when \<open>suffix\<close> is \<open>None\<close>, a \<open>str\<close> or a \<open>tuple\<close>, and
  raises \<open>TypeError\<close> for a \<open>suffix\<close> of any other type, a set included.
\<close>

theorem scandir_suffix_types:
  assumes "str_or_path dir_path = Some p"
  shows "if suffix = PNone \<or> (\<exists>s. suffix = PStr s) \<or> (\<exists>vs. suffix = PTuple vs)
         then \<exists>g. scandir dir_path suffix recursive = Inr g
         else scandir dir_path suffix recursive = Inl TypeError"
  using assms by (cases suffix) (simp_all add: scandir_def)

theorem scandir_suffix_types_witness:
  "(\<exists>g. scandir (PStr ''/data/imgs'') (PTuple [PStr ''.png'', PStr ''.jpg'']) True = Inr g)
   \<and> scandir (PPath ''/data/imgs'') (PList [PStr ''.png'']) True = Inl TypeError"
  using scandir_suffix_types [of "PStr ''/data/imgs''" "''/data/imgs''"
      "PTuple [PStr ''.png'', PStr ''.jpg'']" True]
    scandir_suffix_types [of "PPath ''/data/imgs''" "''/data/imgs''" "PList [PStr ''.png'']" True]
  by simp

subsection \<open>The folder of the end-to-end scenario\<close>

text \<open>
  C2. On the folder \<open>/data/imgs\<close> with \<open>a.png\<close>, \<open>b.txt\<close>, \<open>.hidden.png\<close> and
  \<open>sub/c.jpg\<close>, \<open>scan_folder\<close> returns no list: the hidden file is not a visible
  file, so the loop takes the \<open>else\<close> branch and, \<open>recursive\<close> being true, calls
  \<open>_scandir\<close> on it, and \<open>os.scandir\<close> raises \<open>NotADirectoryError\<close>.
\<close>

theorem scan_folder_hidden_file_raises:
  "scan_folder data_fs (PStr ''/data/imgs'') =
     \<lparr>result = Inl NotADirectoryError,
      opened = [''/data/imgs'', ''/data/imgs/.hidden.png'']\<rparr>"
  by (simp add: scan_folder_def scandir_def IMG_EXTENSIONS_def example_eval path_eval gen_eval)

subsection \<open>Hidden entries\<close>

text \<open>
  C1, as the claim states it, fails: with \<open>recursive\<close> true the directory \<open>.git\<close> is
  passed to \<open>os.scandir\<close> and the file in it is yielded.
\<close>

theorem hidden_directory_entered_counterexample:
  "consume (scandir (PStr ''/data/repo'') PNone True) repo_fs =
     Some \<lparr>yielded = [''a.png'', ''.git/logo.png'', ''sub/c.jpg'', ''sub/notes.txt''],
           scanned = [''/data/repo'', ''/data/repo/.git'', ''/data/repo/sub''],
           raised = None\<rparr>"
  by (rule scan_repo_all)

text \<open>
  C1, amended. For every directory tree and every setting of \<open>suffix\<close> and
  \<open>recursive\<close>, the scanner never yields a hidden entry: the last component of a
  yielded path does not start with a dot. With \<open>recursive\<close> false the scan opens
  the root directory only, so that no hidden entry is yielded or descended into,
  file or directory.
\<close>

theorem hidden_never_yielded:
  assumes "isabs (getcwd fs)" and "str_or_path dir_path = Some root"
    and "resolve fs root = Some nd" and "wf_node nd"
    and "consume (scandir dir_path suffix recursive) fs = Some r"
  shows "(\<forall>v \<in> set (yielded r). \<not> hidden (basename v))
         \<and> (\<not> recursive \<longrightarrow> scanned r = [root])"
proof -
  have r: "r = inner_scandir (getcwd fs) root root suffix recursive nd"
    by (rule consume_scandir_Some [OF assms(2,3,5)])
  have "\<not> hidden (basename v)" if "v \<in> set (yielded r)" for v
  proof -
    have "v \<in> set (yielded (inner_scandir (getcwd fs) root root suffix recursive nd))"
      using that by (simp only: r)
    from yielded_inner_sound [OF assms(1,4) this]
    obtain ns where ns: "ns \<noteq> []" "\<forall>n \<in> set ns. good_name n" "found suffix ns" "v = sep_join ns"
      by blast
    have "basename v = last ns" using basename_sep_join [OF ns(1,2)] ns(4) by simp
    then show ?thesis using ns(3) by (simp add: found_def)
  qed
  moreover have "scanned r = [root]" if "\<not> recursive"
  proof -
    have "scanned (inner_scandir (getcwd fs) root root suffix False nd) = [root]"
      by (cases nd) (simp_all add: scanned_gen_then scanned_for_entries_flat)
    then show ?thesis using that by (simp only: r)
  qed
  ultimately show ?thesis by blast
qed

theorem hidden_never_yielded_witness:
  "consume (scandir (PStr ''/data/repo'') (PStr ''.png'') True) repo_fs =
     Some \<lparr>yielded = [''a.png'', ''.git/logo.png''],
           scanned = [''/data/repo'', ''/data/repo/.git'', ''/data/repo/sub''],
           raised = None\<rparr>
   \<and> \<not> hidden (basename ''a.png'') \<and> \<not> hidden (basename ''.git/logo.png'')
   \<and> consume (scandir (PStr ''/data/imgs'') PNone False) data_fs =
     Some \<lparr>yielded = [''a.png'', ''b.txt''], scanned = [''/data/imgs''], raised = None\<rparr>"
proof -
  have a: "str_or_path (PStr ''/data/repo'') = Some ''/data/repo''"
    and b: "str_or_path (PStr ''/data/imgs'') = Some ''/data/imgs''" by simp_all
  show ?thesis
    using hidden_never_yielded
        [OF example_cwd(2) a example_resolve(2) example_wf(2) scan_repo_png]
      hidden_never_yielded
        [OF example_cwd(1) b example_resolve(1) example_wf(1) scan_imgs_flat]
      scan_repo_png scan_imgs_flat
    by simp
qed

subsection \<open>Without recursion\<close>

text \<open>
  C6. For every directory tree, a scan with \<open>recursive\<close> false opens the root
  directory only, and every path it yields is the name of a regular file that is
  an entry of the root directory, without a path separator in it: a directory
  entry is neither yielded nor descended into.
\<close>

theorem scan_not_recursive:
  assumes "isabs (getcwd fs)" and "str_or_path dir_path = Some root"
    and "resolve fs root = Some nd" and "wf_node nd"
    and "consume (scandir dir_path suffix False) fs = Some r"
  shows "scanned r = [root]
         \<and> (\<forall>v \<in> set (yielded r). sep \<notin> set v \<and> (\<exists>es. nd = Dir es \<and> (v, File) \<in> set es))"
proof -
  have r: "r = inner_scandir (getcwd fs) root root suffix False nd"
    by (rule consume_scandir_Some [OF assms(2,3,5)])
  show ?thesis
  proof (cases nd)
    case File
    then show ?thesis by (simp add: r yielded_gen_then scanned_gen_then)
  next
    case (Dir es)
    have we: "wf_entries es" using assms(4) Dir by simp
    have names: "\<forall>e \<in> set es. good_name (fst e)"
      using wf_entries_names [OF we] by blast
    have y: "yielded r = yielded (for_entries (getcwd fs) root root suffix False es)"
      by (simp add: r Dir yielded_gen_then)
    have "sep \<notin> set v \<and> (v, File) \<in> set es" if "v \<in> set (yielded r)" for v
    proof -
      have "v \<in> set (yielded (for_entries (getcwd fs) root root suffix False es))"
        using that by (simp only: y)
      from yielded_for_entries_flat [OF assms(1) names this]
      have f: "(v, File) \<in> set es" by simp
      from wf_entries_names [OF we f] have "good_name v" by simp
      then show ?thesis using f by (simp add: good_name_def)
    qed
    moreover have "scanned r = [root]"
      by (simp add: r Dir scanned_gen_then scanned_for_entries_flat)
    ultimately show ?thesis using Dir by simp
  qed
qed

theorem scan_not_recursive_witness:
  "consume (scandir (PStr ''/data/imgs'') PNone False) data_fs =
     Some \<lparr>yielded = [''a.png'', ''b.txt''], scanned = [''/data/imgs''], raised = None\<rparr>
   \<and> sep \<notin> set ''a.png'' \<and> sep \<notin> set ''b.txt''
   \<and> (''a.png'', File) \<in> set [(''a.png'', File), (''b.txt'', File), (''.hidden.png'', File),
        (''sub'', Dir [(''c.jpg'', File)])]"
proof -
  have b: "str_or_path (PStr ''/data/imgs'') = Some ''/data/imgs''" by simp
  show ?thesis
    using scan_not_recursive
        [OF example_cwd(1) b example_resolve(1) example_wf(1) scan_imgs_flat]
      scan_imgs_flat
    by (simp add: imgs_def)
qed

subsection \<open>With recursion\<close>

text \<open>
  C3. A scan with \<open>recursive\<close> true is to yield every regular, non-hidden file
  below the root exactly once. On the folder \<open>/data/imgs\<close> with \<open>a.png\<close>,
  \<open>b.txt\<close>, \<open>.hidden.png\<close> and \<open>sub/c.jpg\<close>, scanned without a suffix filter,
  it does not: after \<open>a.png\<close> and \<open>b.txt\<close> the hidden file is passed to
  \<open>os.scandir\<close>, which raises \<open>NotADirectoryError\<close>, and the regular,
  non-hidden file \<open>sub/c.jpg\<close> is never yielded.
\<close>

theorem recursive_scan_aborts_at_hidden_file:
  "consume (scandir (PStr ''/data/imgs'') PNone True) data_fs =
     Some \<lparr>yielded = [''a.png'', ''b.txt''],
           scanned = [''/data/imgs'', ''/data/imgs/.hidden.png''],
           raised = Some NotADirectoryError\<rparr>
   \<and> files_node [] imgs = [[''a.png''], [''b.txt''], [''.hidden.png''], [''sub'', ''c.jpg'']]
   \<and> \<not> hidden ''c.jpg''"
  using scan_imgs_all files_imgs by (simp add: hidden_def startswith_def)

subsection \<open>The assertion of scan_folder\<close>

text \<open>
  C8. \<open>scan_folder\<close> is to raise \<open>AssertionError\<close> when the scan finds no file
  with an image suffix and otherwise to return the non-empty list of the files
  found, each starting with \<open>path\<close>. On the folder \<open>/data/shots\<close> with
  \<open>photo.jpg\<close> and the hidden file \<open>.DS_Store\<close> it does neither: the scan has
  found \<open>photo.jpg\<close> when \<open>os.scandir\<close> on the hidden file raises
  \<open>NotADirectoryError\<close>, and \<open>scan_folder\<close> ends with that exception.
\<close>

theorem scan_folder_image_beside_hidden_file:
  "consume (scandir (PStr ''/data/shots'') IMG_EXTENSIONS True) shots_fs =
     Some \<lparr>yielded = [''photo.jpg''],
           scanned = [''/data/shots'', ''/data/shots/.DS_Store''],
           raised = Some NotADirectoryError\<rparr>
   \<and> scan_folder shots_fs (PStr ''/data/shots'') =
     \<lparr>result = Inl NotADirectoryError,
      opened = [''/data/shots'', ''/data/shots/.DS_Store'']\<rparr>"
  using scan_shots_images scan_folder_shots by simp

section \<open>Properties of BaseDataset\<close>

lemma list_getitem_valid:
  "0 \<le> i \<Longrightarrow> i < int (length xs) \<Longrightarrow> list_getitem xs i = Inr (xs ! nat i)"
  by (simp add: list_getitem_def)

lemma list_getitem_negative:
  "- int (length xs) \<le> i \<Longrightarrow> i < 0 \<Longrightarrow>
     list_getitem xs i = Inr (xs ! nat (int (length xs) + i))"
  by (simp add: list_getitem_def Let_def)

lemma init_attrs:
  "load_pipeline (init bl bt lc tc) =
     (if config_given lc then Some (bl (the lc)) else None)"
  "transforms (init bl bt lc tc) =
     (if config_given tc then Some (bt (the tc)) else None)"
  "annotations (init bl bt lc tc) = Unset"
  by (simp_all add: init_def)

lemma load_annotations_subclass_attrs:
  "load_pipeline (load_annotations_subclass xs ds) = load_pipeline ds"
  "transforms (load_annotations_subclass xs ds) = transforms ds"
  "annotations (load_annotations_subclass xs ds) = IsList xs"
  by (simp_all add: load_annotations_subclass_def)

text \<open>
  C4. A dataset built with a load-pipeline configuration and a transforms
  configuration (both non-empty, the builders returning pipeline objects that
  are true), whose subclass has stored the annotation list \<open>xs\<close>: at every index
  \<open>0 \<le> i < length xs\<close>, \<open>__getitem__\<close> returns the transforms applied to the
  load pipeline applied to \<open>xs[i]\<close>, the load pipeline first.
\<close>

theorem getitem_load_then_transform:
  assumes "lc \<noteq> []" and "tc \<noteq> []"
    and "truthy (bl lc)" and "truthy (bt tc)"
    and "0 \<le> i" and "i < int (length xs)"
  shows "getitem (load_annotations_subclass xs (init bl bt (Some lc) (Some tc))) i
           = Inr (call (bt tc) (call (bl lc) (xs ! nat i)))"
  using assms
  by (simp add: getitem_def load_annotations_subclass_attrs init_attrs
      list_getitem_valid apply_if_present_def)

theorem getitem_load_then_transform_witness:
  "getitem (load_annotations_subclass [10, 20, 30 :: int]
      (init (\<lambda>c. \<lparr>truthy = True, call = (\<lambda>x. x + 1)\<rparr>)
            (\<lambda>c. \<lparr>truthy = True, call = (\<lambda>x. 2 * x)\<rparr>)
            (Some [''load'']) (Some [''flip'']))) 1 = Inr 42
   \<and> (42::int) \<noteq> 2 * 20 + 1"
  using getitem_load_then_transform
    [of "[''load'']" "[''flip'']"
        "\<lambda>c. \<lparr>truthy = True, call = (\<lambda>x. x + 1)\<rparr>"
        "\<lambda>c. \<lparr>truthy = True, call = (\<lambda>x. 2 * x)\<rparr>" 1 "[10, 20, 30 :: int]"]
  by simp

text \<open>
  C7. A dataset built with neither configuration (\<open>None\<close> or an empty list for
  each), whose subclass has stored the annotation list \<open>xs\<close>: at every index
  \<open>0 \<le> i < length xs\<close>, \<open>__getitem__\<close> returns \<open>xs[i]\<close> itself.
\<close>

theorem getitem_no_pipelines:
  assumes "\<not> config_given lc" and "\<not> config_given tc"
    and "0 \<le> i" and "i < int (length xs)"
  shows "getitem (load_annotations_subclass xs (init bl bt lc tc)) i = Inr (xs ! nat i)"
  using assms
  by (simp add: getitem_def load_annotations_subclass_attrs init_attrs
      list_getitem_valid apply_if_present_def)

theorem getitem_no_pipelines_witness:
  "getitem (load_annotations_subclass [10, 20, 30 :: int]
      (init (\<lambda>c. \<lparr>truthy = True, call = (\<lambda>x. x + 1)\<rparr>)
            (\<lambda>c. \<lparr>truthy = True, call = (\<lambda>x. 2 * x)\<rparr>)
            None (Some ([] :: string list)))) 2 = Inr 30"
  using getitem_no_pipelines
    [of None "Some ([] :: string list)" 2 "[10, 20, 30 :: int]"
        "\<lambda>c. \<lparr>truthy = True, call = (\<lambda>x. x + 1)\<rparr>"
        "\<lambda>c. \<lparr>truthy = True, call = (\<lambda>x. 2 * x)\<rparr>"]
  by simp

text \<open>
  C10. A dataset whose annotation list \<open>xs\<close> has \<open>N\<close> entries, and an index
  \<open>- N \<le> i < 0\<close>: \<open>__getitem__\<close> does not fail; it takes the annotation at
  position \<open>N + i\<close> and passes it through the pipelines the instance has, which is
  also what it returns for the index \<open>N + i\<close>.
\<close>

theorem getitem_negative_index:
  assumes "annotations ds = IsList xs"
    and "- int (length xs) \<le> i" and "i < 0"
  shows "getitem ds i =
           Inr (apply_if_present (transforms ds)
                 (apply_if_present (load_pipeline ds) (xs ! nat (int (length xs) + i))))
         \<and> getitem ds i = getitem ds (int (length xs) + i)"
  using assms
  by (simp add: getitem_def list_getitem_negative list_getitem_valid)

theorem getitem_negative_index_witness:
  "getitem \<lparr> load_pipeline = Some \<lparr>truthy = True, call = (\<lambda>x. x + 1)\<rparr>,
             transforms = None, annotations = IsList [10, 20, 30 :: int] \<rparr> (- 1)
     = Inr 31"
  using getitem_negative_index
    [of "\<lparr> load_pipeline = Some \<lparr>truthy = True, call = (\<lambda>x. x + 1)\<rparr>,
           transforms = None, annotations = IsList [10, 20, 30 :: int] \<rparr>"
        "[10, 20, 30 :: int]" "- 1"]
  by (simp add: apply_if_present_def)

end
